theory Spec2Isabelle
  imports Complex_Main "HOL-Library.Word"
begin

section \<open>Data model of \<^verbatim>\<open>imu_manager.h\<close>\<close>

text \<open>
  A C \<^verbatim>\<open>float\<close> is represented by the rational number it denotes. Only finite values
  are represented; the arithmetic of \<^verbatim>\<open>imu_task\<close> never leaves the finite range,
  and the other \<^verbatim>\<open>float\<close> fields are only carried around.
\<close>

type_synonym c_float = rat

text \<open>The anonymous struct \<^verbatim>\<open>accelerometer\<close> of \<^verbatim>\<open>imu_data_t\<close>.\<close>

record accelerometer_t =
  x_g :: c_float
  y_g :: c_float
  z_g :: c_float
  magnitude_g :: c_float
  valid :: bool

text \<open>The anonymous struct \<^verbatim>\<open>stats\<close> of \<^verbatim>\<open>imu_data_t\<close>.\<close>

record stats_t =
  fifo_level :: "16 word"
  samples_read :: "16 word"
  odr_hz :: c_float
  batch_interval_us :: c_float
  samples_per_second :: c_float

record imu_data_t =
  timestamp_us :: "64 word"
  accelerometer :: accelerometer_t
  stats :: stats_t

section \<open>Single-precision arithmetic used by \<^verbatim>\<open>imu_task\<close>\<close>

text \<open>
  \<^verbatim>\<open>imu_task\<close> converts unsigned integers to \<^verbatim>\<open>float\<close> and divides
  \<^verbatim>\<open>float\<close>s. Both operations round the exact result to the nearest binary32 value,
  ties to even: 24 significant bits, least exponent \<open>-149\<close>. The largest operand is below
  \<open>2 ^ 64\<close>, so the overflow to infinity of binary32 is not modelled.
\<close>

fun bit_length :: "nat \<Rightarrow> nat" where
  "bit_length n = (if n = 0 then 0 else Suc (bit_length (n div 2)))"

declare bit_length.simps [simp del]

definition pow2 :: "int \<Rightarrow> rat" where
  "pow2 e = (if 0 \<le> e then 2 ^ nat e else 1 / 2 ^ nat (- e))"

text \<open>\<open>floor_log2 x\<close> is the exponent \<open>k\<close> with \<open>2 ^ k \<le> x < 2 ^ (k + 1)\<close>, for \<open>x > 0\<close>.\<close>

definition floor_log2 :: "rat \<Rightarrow> int" where
  "floor_log2 x =
     (case quotient_of x of (p, q) \<Rightarrow>
        let d = int (bit_length (nat p)) - int (bit_length (nat q))
        in if pow2 d \<le> x then d else d - 1)"

definition round_half_even :: "rat \<Rightarrow> int" where
  "round_half_even q =
     (let f = \<lfloor>q\<rfloor>; r = q - of_int f
      in if r < 1 / 2 then f
         else if 1 / 2 < r then f + 1
         else if even f then f else f + 1)"

definition f32_round :: "rat \<Rightarrow> c_float" where
  "f32_round x =
     (if x = 0 then 0
      else let a = \<bar>x\<bar>; e = max (floor_log2 a - 23) (- 149)
           in sgn x * of_int (round_half_even (a / pow2 e)) * pow2 e)"

definition f32_of_u64 :: "64 word \<Rightarrow> c_float" where
  "f32_of_u64 w = f32_round (of_nat (unat w))"

definition f32_of_u32 :: "32 word \<Rightarrow> c_float" where
  "f32_of_u32 w = f32_round (of_nat (unat w))"

definition f32_div :: "c_float \<Rightarrow> c_float \<Rightarrow> c_float" where
  "f32_div a b = f32_round (a / b)"

section \<open>The sample store\<close>

text \<open>
  A stored sample is the \<^verbatim>\<open>imu_data_t\<close> handed to the store, tagged with the
  \<open>sequence_id\<close> of its push. A slot is \<open>None\<close> while it has not been written.
\<close>

type_synonym sample = "32 word \<times> imu_data_t"

record sample_store =
  slots :: "sample option list"
  cursor :: nat
  sequence_id :: "32 word"

text \<open>
  Modelled from the spec: \<^verbatim>\<open>data_buffer_init\<close> is in \<^verbatim>\<open>data_buffer.c\<close>, which is
  not among the sources. The store is a fixed-capacity ring of \<open>N\<close> slots, all "not yet
  written", plus the latest \<open>sequence_id\<close> and a write cursor.
\<close>

definition data_buffer_init :: "nat \<Rightarrow> sample_store" where
  "data_buffer_init N = \<lparr>slots = replicate N None, cursor = 0, sequence_id = 0\<rparr>"

text \<open>
  Modelled from the spec: \<^verbatim>\<open>data_buffer_add\<close> (the spec's \<open>push\<close>) is in
  \<^verbatim>\<open>data_buffer.c\<close>, which is not among the sources. It advances the cursor modulo
  \<open>N\<close>, writes the sample into that slot, then publishes the new \<open>sequence_id\<close>, a
  32-bit counter that wraps.
\<close>

definition data_buffer_add :: "imu_data_t \<Rightarrow> sample_store \<Rightarrow> sample_store" where
  "data_buffer_add d b =
     (let c = (cursor b + 1) mod length (slots b);
          sid = sequence_id b + 1
      in \<lparr>slots = (slots b)[c := Some (sid, d)], cursor = c, sequence_id = sid\<rparr>)"

text \<open>
  Modelled from the spec: \<^verbatim>\<open>data_buffer_get_latest\<close> (the spec's \<open>peek_latest\<close>) is
  in \<^verbatim>\<open>data_buffer.c\<close>, which is not among the sources. It returns a copy of the
  sample at the most recently published cursor position, or "empty" (\<open>None\<close>, the
  result that is not \<^verbatim>\<open>ESP_OK\<close>) if nothing has ever been pushed. It changes
  nothing.
\<close>

definition data_buffer_get_latest :: "sample_store \<Rightarrow> sample option" where
  "data_buffer_get_latest b =
     (if cursor b < length (slots b) then slots b ! cursor b else None)"

text \<open>
  Modelled from the spec: \<^verbatim>\<open>imu_manager_copy_recent_samples\<close> (the spec's
  \<open>copy_recent\<close>) is declared in \<^verbatim>\<open>imu_manager.h\<close>; its body is not among the
  sources. It takes a snapshot of the cursor, walks back from it over at most
  \<open>max_samples\<close> and at most \<open>N\<close> slots, copies only written slots, and returns the
  copies ordered oldest to newest, each with its \<open>sequence_id\<close>. It changes nothing.
  Without a concurrent push the snapshot never has to be retried. The C function fills
  arrays of the caller and returns the count; the model returns the list of copies.
\<close>

definition imu_manager_copy_recent_samples :: "nat \<Rightarrow> sample_store \<Rightarrow> sample list" where
  "imu_manager_copy_recent_samples max_samples b =
     (let N = length (slots b);
          back = map (\<lambda>i. slots b ! ((cursor b + N - i) mod N)) [0..<min max_samples N]
      in rev (List.map_filter id (takeWhile (\<lambda>x. x \<noteq> None) back)))"

text \<open>
  Modelled from the spec: the gap computation of a reader is not among the sources. A
  reader compares its last-seen \<open>sequence_id\<close> with the newly observed one by
  wraparound-safe 32-bit subtraction; a gap greater than 1 means that samples were
  dropped from its point of view.
\<close>

definition sequence_gap :: "32 word \<Rightarrow> 32 word \<Rightarrow> 32 word" where
  "sequence_gap last_seen observed = observed - last_seen"

section \<open>The acquisition task \<^verbatim>\<open>imu_task\<close> of \<^verbatim>\<open>main.c\<close>\<close>

text \<open>
  The calls that leave a task are recorded as events: the log lines, \<^verbatim>\<open>vTaskDelay\<close>
  and \<^verbatim>\<open>vTaskDelayUntil\<close> with their tick arguments. \<open>Log_stats\<close> carries the
  arguments of the \<^verbatim>\<open>ESP_LOGI\<close> of the window close: \<^verbatim>\<open>msg_per_sec\<close>,
  \<^verbatim>\<open>samples_per_sec\<close>, the magnitude, the fifo level and the batch size;
  \<open>Log_processed\<close> the count that \<^verbatim>\<open>data_processor_task\<close> logs.
\<close>

datatype event =
    Log_stats c_float c_float c_float "16 word" "16 word"
  | Log_read_failed
  | Log_processed "32 word"
  | Task_delay "32 word"
  | Task_delay_until "32 word"

text \<open>The local variables of \<^verbatim>\<open>imu_task\<close> that live across iterations, and the store.\<close>

record task_state =
  buffer :: sample_store
  batch_count :: "32 word"
  sample_accumulator :: "32 word"
  stats_window_start :: "64 word"

text \<open>\<^verbatim>\<open>const TickType_t tick_delay = (frequency > 0) ? frequency : 1;\<close>\<close>

definition tick_delay_of :: "32 word \<Rightarrow> 32 word" where
  "tick_delay_of frequency = (if 0 < frequency then frequency else 1)"

text \<open>
  One iteration of \<^verbatim>\<open>while (1)\<close>. The FreeRTOS macro \<^verbatim>\<open>pdMS_TO_TICKS\<close> depends on
  the tick rate of the build and is a parameter. The argument \<open>r\<close> is what
  \<^verbatim>\<open>imu_manager_read_all\<close> delivers: \<open>Some sensor_data\<close> for \<^verbatim>\<open>ESP_OK\<close>,
  \<open>None\<close> otherwise.
\<close>

definition imu_cycle ::
  "(nat \<Rightarrow> 32 word) \<Rightarrow> task_state \<Rightarrow> imu_data_t option \<Rightarrow> event list \<times> task_state" where
  "imu_cycle pdMS_TO_TICKS s r =
     (let tick_delay = tick_delay_of (pdMS_TO_TICKS 1) in
      case r of
        Some sensor_data \<Rightarrow>
          let s1 = s\<lparr>buffer := data_buffer_add sensor_data (buffer s),
                     batch_count := batch_count s + 1,
                     sample_accumulator :=
                       sample_accumulator s + ucast (samples_read (stats sensor_data))\<rparr>;
              now = timestamp_us sensor_data
          in if 1000000 \<le> now - stats_window_start s1 then
               let elapsed_s = f32_div (f32_of_u64 (now - stats_window_start s1)) 1000000;
                   msg_per_sec = f32_div (f32_of_u32 (batch_count s1)) elapsed_s;
                   samples_per_sec = f32_div (f32_of_u32 (sample_accumulator s1)) elapsed_s
               in ([Log_stats msg_per_sec samples_per_sec
                      (magnitude_g (accelerometer sensor_data))
                      (fifo_level (stats sensor_data))
                      (samples_read (stats sensor_data)),
                    Task_delay_until tick_delay],
                   s1\<lparr>batch_count := 0, sample_accumulator := 0, stats_window_start := now\<rparr>)
             else ([Task_delay_until tick_delay], s1)
      | None \<Rightarrow>
          ([Log_read_failed, Task_delay (pdMS_TO_TICKS 5), Task_delay_until tick_delay], s))"

text \<open>The loop over a finite prefix of decode results; one event list per iteration.\<close>

fun imu_loop ::
  "(nat \<Rightarrow> 32 word) \<Rightarrow> task_state \<Rightarrow> imu_data_t option list \<Rightarrow> event list list \<times> task_state" where
  "imu_loop pdMS_TO_TICKS s [] = ([], s)"
| "imu_loop pdMS_TO_TICKS s (r # rs) =
     (case imu_cycle pdMS_TO_TICKS s r of (ev, s1) \<Rightarrow>
        case imu_loop pdMS_TO_TICKS s1 rs of (evs, s2) \<Rightarrow> (ev # evs, s2))"

text \<open>
  The task: when \<^verbatim>\<open>imu_manager_init\<close> fails, it deletes itself before the loop; else
  it enters the loop with both counters at zero and \<^verbatim>\<open>stats_window_start\<close> read from
  \<^verbatim>\<open>esp_timer_get_time()\<close> (\<open>t0\<close>). After any finite number of iterations the task is
  still in the loop: \<^verbatim>\<open>while (1)\<close> has no exit.
\<close>

datatype task_outcome =
    Task_deleted
  | Task_running "event list list" task_state

definition imu_task ::
  "(nat \<Rightarrow> 32 word) \<Rightarrow> bool \<Rightarrow> 64 word \<Rightarrow> sample_store \<Rightarrow> imu_data_t option list
     \<Rightarrow> task_outcome" where
  "imu_task pdMS_TO_TICKS init_ok t0 b rs =
     (if \<not> init_ok then Task_deleted
      else case imu_loop pdMS_TO_TICKS
                  \<lparr>buffer = b, batch_count = 0, sample_accumulator = 0, stats_window_start = t0\<rparr> rs
           of (evs, s) \<Rightarrow> Task_running evs s)"

section \<open>The consumer \<^verbatim>\<open>data_processor_task\<close> of \<^verbatim>\<open>main.c\<close>\<close>

text \<open>
  One iteration of its \<^verbatim>\<open>while (1)\<close>: it reads the latest sample without consuming it;
  when there is one it counts it and logs every 1000th count, else it waits 10 ms; then it
  always waits 100 ms. The state is the local \<^verbatim>\<open>processed_count\<close>; the store is only
  read.
\<close>

definition data_processor_cycle ::
  "(nat \<Rightarrow> 32 word) \<Rightarrow> sample_store \<Rightarrow> 32 word \<Rightarrow> event list \<times> 32 word" where
  "data_processor_cycle pdMS_TO_TICKS b processed_count =
     (case data_buffer_get_latest b of
        Some data \<Rightarrow>
          let processed_count = processed_count + 1
          in ((if processed_count mod 1000 = 0 then [Log_processed processed_count] else []) @
              [Task_delay (pdMS_TO_TICKS 100)],
              processed_count)
      | None \<Rightarrow>
          ([Task_delay (pdMS_TO_TICKS 10), Task_delay (pdMS_TO_TICKS 100)], processed_count))"

section \<open>Observations used in the statements\<close>

text \<open>What an observer of the task sees of an outcome: the events, iteration by iteration.\<close>

fun outcome_events :: "task_outcome \<Rightarrow> event list list" where
  "outcome_events Task_deleted = []"
| "outcome_events (Task_running evs s) = evs"

text \<open>
  The two throughput values of a statistics line (\<^verbatim>\<open>msg_per_sec\<close>, the batches per
  second, and \<^verbatim>\<open>samples_per_sec\<close>), and, for a run, the values reported in each
  iteration: the empty list for an iteration that leaves the window open.
\<close>

fun throughput :: "event \<Rightarrow> (c_float \<times> c_float) option" where
  "throughput (Log_stats msg_per_sec samples_per_sec m f n) = Some (msg_per_sec, samples_per_sec)"
| "throughput Log_read_failed = None"
| "throughput (Log_processed c) = None"
| "throughput (Task_delay t) = None"
| "throughput (Task_delay_until t) = None"

definition window_reports :: "event list list \<Rightarrow> (c_float \<times> c_float) list list" where
  "window_reports evs = map (List.map_filter throughput) evs"

definition window_closed :: "event list \<Rightarrow> bool" where
  "window_closed ev = (List.map_filter throughput ev \<noteq> [])"

fun is_delay_until :: "event \<Rightarrow> bool" where
  "is_delay_until (Task_delay_until t) = True"
| "is_delay_until (Log_stats msg_per_sec samples_per_sec m f n) = False"
| "is_delay_until Log_read_failed = False"
| "is_delay_until (Log_processed c) = False"
| "is_delay_until (Task_delay t) = False"

text \<open>
  The rate as the spec words it, in exact arithmetic: a count divided by the elapsed
  seconds, the elapsed time being given in microseconds. It is what the rates that
  \<^verbatim>\<open>imu_task\<close> computes in \<^verbatim>\<open>float\<close> are compared with.
\<close>

definition spec_rate :: "nat \<Rightarrow> nat \<Rightarrow> rat" where
  "spec_rate count elapsed_us = of_nat count / (of_nat elapsed_us / 1000000)"

text \<open>
  The part of a decode result that the statistics are meant to depend on: whether the
  decode succeeded, the timestamp of the sample and the number of drained items.
\<close>

definition sample_trace :: "imu_data_t option list \<Rightarrow> (64 word \<times> 16 word) option list" where
  "sample_trace rs = map (map_option (\<lambda>d. (timestamp_us d, samples_read (stats d)))) rs"

text \<open>
  The synthetic trace of the statistics test: 10 successful cycles, the timestamps
  100,000 microseconds apart starting one spacing after \<open>start\<close>, 100 items drained in
  each; the other fields are those of \<open>d\<close>.
\<close>

definition synthetic_cycle :: "64 word \<Rightarrow> imu_data_t \<Rightarrow> nat \<Rightarrow> imu_data_t" where
  "synthetic_cycle start d i =
     d\<lparr>timestamp_us := start + 100000 * of_nat i,
       stats := (stats d)\<lparr>samples_read := 100\<rparr>\<rparr>"

definition synthetic_trace :: "64 word \<Rightarrow> imu_data_t \<Rightarrow> imu_data_t option list" where
  "synthetic_trace start d = map (\<lambda>i. Some (synthetic_cycle start d i)) [1..<11]"

text \<open>A push history: the samples handed to \<^verbatim>\<open>data_buffer_add\<close>, oldest first.\<close>

definition pushes :: "imu_data_t list \<Rightarrow> sample_store \<Rightarrow> sample_store" where
  "pushes ds b = foldl (\<lambda>b d. data_buffer_add d b) b ds"

text \<open>A sample for the examples: all fields zero but the timestamp and the batch size.\<close>

definition example_sample :: "64 word \<Rightarrow> 16 word \<Rightarrow> imu_data_t" where
  "example_sample t n =
     \<lparr>timestamp_us = t,
      accelerometer = \<lparr>x_g = 0, y_g = 0, z_g = 0, magnitude_g = 0, valid = True\<rparr>,
      stats = \<lparr>fifo_level = 0, samples_read = n, odr_hz = 0, batch_interval_us = 0,
               samples_per_second = 0\<rparr>\<rparr>"

section \<open>Properties of the single-precision arithmetic\<close>

lemma pow2_powi: "pow2 e = 2 powi e"
  by (simp add: pow2_def power_int_def inverse_eq_divide power_one_over)

lemma pow2_pos: "0 < pow2 e"
  by (simp add: pow2_powi)

lemma pow2_add: "pow2 (a + b) = pow2 a * pow2 b"
  by (simp add: pow2_powi power_int_add)

lemma pow2_strict_mono: "a < b \<Longrightarrow> pow2 a < pow2 b"
  by (simp add: pow2_powi power_int_strict_increasing)

lemma pow2_mono: "a \<le> b \<Longrightarrow> pow2 a \<le> pow2 b"
  by (simp add: pow2_powi power_int_increasing)

lemma pow2_less_iff: "pow2 a < pow2 b \<longleftrightarrow> a < b"
  using pow2_strict_mono [of a b] pow2_mono [of b a] by (cases "a < b") auto

lemma pow2_le_iff: "pow2 a \<le> pow2 b \<longleftrightarrow> a \<le> b"
  using pow2_strict_mono [of b a] pow2_mono [of a b] by (cases "a \<le> b") auto

lemma pow2_nat: "pow2 (int n) = 2 ^ n"
  by (simp add: pow2_def)

lemma bit_length_bounds:
  "0 < n \<Longrightarrow> 2 ^ (bit_length n - 1) \<le> n \<and> n < 2 ^ bit_length n"
proof (induction n rule: bit_length.induct)
  case (1 n)
  show ?case
  proof (cases "n div 2 = 0")
    case True
    with "1.prems" have "n = 1" by (simp add: div_eq_0_iff) 
    then show ?thesis by (simp add: bit_length.simps)
  next
    case False
    with "1.IH" "1.prems" have IH: "2 ^ (bit_length (n div 2) - 1) \<le> n div 2" "n div 2 < 2 ^ bit_length (n div 2)"
      by auto
    have pos: "0 < bit_length (n div 2)" using False by (simp add: bit_length.simps)
    have eq: "bit_length n = Suc (bit_length (n div 2))" using "1.prems" by (simp add: bit_length.simps)
    have "2 * 2 ^ (bit_length (n div 2) - 1) \<le> n" using IH(1) by linarith
    moreover have "2 * 2 ^ (bit_length (n div 2) - 1) = (2::nat) ^ bit_length (n div 2)"
      using pos by (cases "bit_length (n div 2)") auto
    moreover have "n < 2 * 2 ^ bit_length (n div 2)" using IH(2) by linarith
    ultimately show ?thesis by (simp add: eq)
  qed
qed

lemma floor_log2_bounds:
  assumes "0 < x"
  shows "pow2 (floor_log2 x) \<le> x \<and> x < pow2 (floor_log2 x + 1)"
proof -
  obtain p q where pq: "quotient_of x = (p, q)" by (cases "quotient_of x")
  have q: "0 < q" using quotient_of_denom_pos [OF pq] .
  have x: "x = of_int p / of_int q" using quotient_of_div [OF pq] .
  have p: "0 < p" using assms q x by (simp add: zero_less_divide_iff)
  define bp where "bp = bit_length (nat p)"
  define bq where "bq = bit_length (nat q)"
  define d where "d = int bp - int bq"
  have bp: "2 ^ (bp - 1) \<le> nat p" "nat p < 2 ^ bp"
    using bit_length_bounds [of "nat p"] p by (simp_all add: bp_def)
  have bq: "2 ^ (bq - 1) \<le> nat q" "nat q < 2 ^ bq"
    using bit_length_bounds [of "nat q"] q by (simp_all add: bq_def)
  have bp0: "0 < bp" using p by (simp add: bp_def bit_length.simps)
  have bq0: "0 < bq" using q by (simp add: bq_def bit_length.simps)
  have P1: "(2::rat) ^ (bp - 1) \<le> of_int p"
  proof -
    have "of_nat (2 ^ (bp - 1)) \<le> (of_nat (nat p) :: rat)" using bp(1) of_nat_le_iff by blast
    then show ?thesis using p by simp
  qed
  have P2: "of_int p < (2::rat) ^ bp"
  proof -
    have "(of_nat (nat p) :: rat) < of_nat (2 ^ bp)" using bp(2) of_nat_less_iff by blast
    then show ?thesis using p by simp
  qed
  have Q1: "(2::rat) ^ (bq - 1) \<le> of_int q"
  proof -
    have "of_nat (2 ^ (bq - 1)) \<le> (of_nat (nat q) :: rat)" using bq(1) of_nat_le_iff by blast
    then show ?thesis using q by simp
  qed
  have Q2: "of_int q < (2::rat) ^ bq"
  proof -
    have "(of_nat (nat q) :: rat) < of_nat (2 ^ bq)" using bq(2) of_nat_less_iff by blast
    then show ?thesis using q by simp
  qed
  have qr: "(0::rat) < of_int q" using q by simp
  have lo: "pow2 (d - 1) \<le> x"
  proof -
    have "pow2 (d - 1) * of_int q \<le> pow2 (d - 1) * 2 ^ bq"
      using Q2 pow2_pos [of "d - 1"] by (simp add: less_imp_le)
    also have "\<dots> = pow2 (d - 1 + int bq)" by (simp add: pow2_add pow2_nat)
    also have "d - 1 + int bq = int (bp - 1)" using bp0 by (simp add: d_def)
    also have "pow2 (int (bp - 1)) \<le> of_int p" using P1 by (simp add: pow2_nat)
    finally show ?thesis using qr by (simp add: x pos_le_divide_eq)
  qed
  have hi: "x < pow2 (d + 1)"
  proof -
    have "of_int p < (2::rat) ^ bp" by (rule P2)
    also have "\<dots> = pow2 (d + 1 + int (bq - 1))" using bq0 by (simp add: d_def pow2_nat)
    also have "\<dots> = pow2 (d + 1) * 2 ^ (bq - 1)" by (simp add: pow2_add pow2_nat)
    also have "\<dots> \<le> pow2 (d + 1) * of_int q"
      using Q1 pow2_pos [of "d + 1"] by simp
    finally show ?thesis using qr by (simp add: x pos_divide_less_eq)
  qed
  have fl: "floor_log2 x = (if pow2 d \<le> x then d else d - 1)"
    by (simp add: floor_log2_def pq d_def bp_def bq_def Let_def)
  show ?thesis
  proof (cases "pow2 d \<le> x")
    case True
    then show ?thesis using hi by (simp add: fl)
  next
    case False
    then show ?thesis using lo by (simp add: fl)
  qed
qed

lemma floor_log2_unique:
  assumes "pow2 k \<le> x" "x < pow2 (k + 1)"
  shows "floor_log2 x = k"
proof -
  have "0 < x" using assms(1) pow2_pos [of k] by linarith
  from floor_log2_bounds [OF this] have b: "pow2 (floor_log2 x) \<le> x" "x < pow2 (floor_log2 x + 1)"
    by simp_all
  have "pow2 k < pow2 (floor_log2 x + 1)" using assms(1) b(2) by linarith
  then have 1: "k < floor_log2 x + 1" by (simp add: pow2_less_iff)
  have "pow2 (floor_log2 x) < pow2 (k + 1)" using assms(2) b(1) by linarith
  then have 2: "floor_log2 x < k + 1" by (simp add: pow2_less_iff)
  show ?thesis using 1 2 by linarith
qed

lemma round_half_even_of_int: "round_half_even (of_int n) = n"
  by (simp add: round_half_even_def)

lemma round_half_even_ge: "of_int n \<le> q \<Longrightarrow> n \<le> round_half_even q"
proof -
  assume "of_int n \<le> q"
  then have "n \<le> \<lfloor>q\<rfloor>" by (simp add: le_floor_iff)
  then show ?thesis by (simp add: round_half_even_def Let_def)
qed

lemma f32_round_pos:
  "0 < x \<Longrightarrow>
     f32_round x =
       of_int (round_half_even (x / pow2 (max (floor_log2 x - 23) (- 149))))
         * pow2 (max (floor_log2 x - 23) (- 149))"
  by (simp add: f32_round_def Let_def)

lemma f32_round_ge:
  assumes x: "0 < x" and r: "of_int m * pow2 j \<le> x"
    and e: "max (floor_log2 x - 23) (- 149) \<le> j"
  shows "of_int m * pow2 j \<le> f32_round x"
proof -
  define e where "e = max (floor_log2 x - 23) (- 149)"
  have ej: "0 \<le> j - e" using e by (simp add: e_def)
  have split: "pow2 j = 2 ^ nat (j - e) * pow2 e"
  proof -
    have "pow2 j = pow2 (int (nat (j - e)) + e)" using ej by simp
    then show ?thesis by (simp only: pow2_add pow2_nat)
  qed
  have "of_int (m * 2 ^ nat (j - e)) * pow2 e \<le> x"
    using r by (simp add: split mult.assoc)
  then have "of_int (m * 2 ^ nat (j - e)) \<le> x / pow2 e"
    using pow2_pos [of e] by (simp add: pos_le_divide_eq)
  then have "m * 2 ^ nat (j - e) \<le> round_half_even (x / pow2 e)"
    by (rule round_half_even_ge)
  then have "(of_int (m * 2 ^ nat (j - e)) :: rat) \<le> of_int (round_half_even (x / pow2 e))"
    by (simp only: of_int_le_iff)
  then have "of_int (m * 2 ^ nat (j - e)) * pow2 e \<le> of_int (round_half_even (x / pow2 e)) * pow2 e"
    using pow2_pos [of e] by (simp only: mult_le_cancel_right_pos)
  then show ?thesis
    using x by (simp add: f32_round_pos e_def [symmetric] split mult.assoc)
qed

lemma f32_round_ge_pow2:
  assumes x: "0 < x" and k: "- 149 \<le> floor_log2 x"
  shows "pow2 (floor_log2 x) \<le> f32_round x"
proof -
  have "of_int 1 * pow2 (floor_log2 x) \<le> f32_round x"
  proof (rule f32_round_ge [OF x])
    show "of_int 1 * pow2 (floor_log2 x) \<le> x"
      using floor_log2_bounds [OF x] by simp
    show "max (floor_log2 x - 23) (- 149) \<le> floor_log2 x"
      using k by simp
  qed
  then show ?thesis by simp
qed

lemma floor_log2_ge:
  assumes "pow2 k \<le> x"
  shows "k \<le> floor_log2 x"
proof -
  have x: "0 < x" using assms pow2_pos [of k] by linarith
  have "pow2 k < pow2 (floor_log2 x + 1)"
    using floor_log2_bounds [OF x] assms by linarith
  then show ?thesis by (simp add: pow2_less_iff)
qed

lemma f32_round_ge_1:
  assumes "1 \<le> x"
  shows "1 \<le> f32_round x"
proof -
  have x: "0 < x" using assms by linarith
  have k: "0 \<le> floor_log2 x"
    by (rule floor_log2_ge) (simp add: pow2_def assms)
  have "pow2 0 \<le> pow2 (floor_log2 x)" using k by (rule pow2_mono)
  also have "\<dots> \<le> f32_round x" using x k by (intro f32_round_ge_pow2) simp_all
  finally show ?thesis by (simp add: pow2_def)
qed

lemma f32_round_ge_million:
  assumes "1000000 \<le> x"
  shows "1000000 \<le> f32_round x"
proof -
  have x: "0 < x" using assms by linarith
  show ?thesis
  proof (cases "floor_log2 x \<le> 29")
    case True
    have "of_int 15625 * pow2 6 \<le> f32_round x"
    proof (rule f32_round_ge [OF x])
      show "of_int 15625 * pow2 6 \<le> x" using assms by (simp add: pow2_def)
      show "max (floor_log2 x - 23) (- 149) \<le> 6" using True by simp
    qed
    then show ?thesis by (simp add: pow2_def)
  next
    case False
    then have k: "30 \<le> floor_log2 x" by simp
    have "(1000000::rat) \<le> pow2 30" by (simp add: pow2_def)
    also have "\<dots> \<le> pow2 (floor_log2 x)" using k by (rule pow2_mono)
    also have "\<dots> \<le> f32_round x" using x k by (intro f32_round_ge_pow2) simp_all
    finally show ?thesis .
  qed
qed

lemma f32_round_of_nat:
  assumes n: "0 < n" "n < 2 ^ 24"
  shows "f32_round (of_nat n) = of_nat n"
proof -
  define x :: rat where "x = of_nat n"
  have x: "0 < x" using n by (simp add: x_def)
  define k where "k = floor_log2 x"
  have k0: "0 \<le> k"
    unfolding k_def by (rule floor_log2_ge) (use n in \<open>simp add: pow2_def x_def\<close>)
  have "pow2 k \<le> x" using floor_log2_bounds [OF x] by (simp add: k_def)
  also have "x < pow2 24"
  proof -
    have "(of_nat n :: rat) < of_nat (2 ^ 24)" using n(2) of_nat_less_iff by blast
    then show ?thesis by (simp add: pow2_def x_def)
  qed
  finally have k24: "k < 24" by (simp add: pow2_less_iff)
  define e where "e = max (k - 23) (- 149)"
  have e: "e = k - 23" using k0 by (simp add: e_def)
  have inv: "x / pow2 e = of_int (int n * 2 ^ nat (23 - k))"
  proof -
    have a: "pow2 e * pow2 (int (nat (23 - k))) = pow2 (e + int (nat (23 - k)))"
      by (simp only: pow2_add)
    have b: "e + int (nat (23 - k)) = 0" using k24 by (simp add: e)
    have c: "pow2 0 = 1" by (simp add: pow2_def)
    have "pow2 e * 2 ^ nat (23 - k) = 1"
      using a unfolding b c pow2_nat .
    then have "x = x * 2 ^ nat (23 - k) * pow2 e" by (simp add: mult.assoc mult.commute)
    then have "x / pow2 e = x * 2 ^ nat (23 - k)"
      using pow2_pos [of e] by (simp add: divide_eq_eq)
    then show ?thesis by (simp add: x_def)
  qed
  have "f32_round x = of_int (round_half_even (x / pow2 e)) * pow2 e"
    using x by (simp add: f32_round_pos e_def k_def)
  also have "\<dots> = (x / pow2 e) * pow2 e"
    by (simp only: inv round_half_even_of_int)
  also have "\<dots> = x" using pow2_pos [of e] by simp
  finally show ?thesis by (simp add: x_def)
qed

lemma f32_round_small_nat:
  assumes "n < 2 ^ 24"
  shows "f32_round (of_nat n) = of_nat n"
proof (cases "n = 0")
  case True
  then show ?thesis by (simp add: f32_round_def)
next
  case False
  then have "0 < n" by simp
  then show ?thesis using assms by (rule f32_round_of_nat)
qed

lemma f32_of_u32_small_nat:
  assumes "n < 2 ^ 24"
  shows "f32_of_u32 (of_nat n) = of_nat n"
proof -
  have "(2::nat) ^ 24 \<le> 2 ^ 32" by simp
  with assms have "n < 2 ^ 32" by linarith
  then have "unat (of_nat n :: 32 word) = n" by (simp add: unat_of_nat)
  then show ?thesis using assms by (simp add: f32_of_u32_def f32_round_small_nat)
qed

lemma f32_of_u64_small_nat:
  assumes "n < 2 ^ 24"
  shows "f32_of_u64 (of_nat n) = of_nat n"
proof -
  have "(2::nat) ^ 24 \<le> 2 ^ 64" by simp
  with assms have "n < 2 ^ 64" by linarith
  then have "unat (of_nat n :: 64 word) = n" by (simp add: unat_of_nat)
  then show ?thesis using assms by (simp add: f32_of_u64_def f32_round_small_nat)
qed

subsection \<open>The rounding error of a rate\<close>

lemma round_half_even_error: "\<bar>of_int (round_half_even q) - q\<bar> \<le> 1 / 2"
proof -
  define f where "f = \<lfloor>q\<rfloor>"
  have lo: "of_int f \<le> q" by (simp add: f_def)
  have hi: "q < of_int f + 1" using floor_correct [of q] by (simp add: f_def)
  show ?thesis
    using lo hi unfolding round_half_even_def Let_def f_def [symmetric]
    by (simp add: abs_le_iff)
qed

lemma f32_round_error:
  assumes "pow2 (- 126) \<le> x"
  shows "\<bar>f32_round x - x\<bar> \<le> x / 2 ^ 24"
proof -
  have x: "0 < x" using assms pow2_pos [of "- 126"] by linarith
  define k where "k = floor_log2 x"
  have k: "- 126 \<le> k" unfolding k_def using assms by (rule floor_log2_ge)
  have kx: "pow2 k \<le> x" using floor_log2_bounds [OF x] by (simp add: k_def)
  define e where "e = k - 23"
  have e: "max (floor_log2 x - 23) (- 149) = e" using k by (simp add: e_def k_def)
  have pe: "0 < pow2 e" by (rule pow2_pos)
  define m where "m = round_half_even (x / pow2 e)"
  have r: "f32_round x = of_int m * pow2 e"
    using x by (simp add: f32_round_pos e m_def)
  have "f32_round x - x = (of_int m - x / pow2 e) * pow2 e"
    using pe by (simp add: r left_diff_distrib)
  then have "\<bar>f32_round x - x\<bar> = \<bar>of_int m - x / pow2 e\<bar> * pow2 e"
    using pe by (simp add: abs_mult)
  also have "\<dots> \<le> (1 / 2) * pow2 e"
    using round_half_even_error [of "x / pow2 e"] pe
    by (simp only: m_def mult_le_cancel_right_pos)
  also have "(1 / 2) * pow2 e = pow2 k / 2 ^ 24"
  proof -
    have "pow2 k = pow2 (e + 23)" by (simp add: e_def)
    also have "\<dots> = pow2 e * pow2 23" by (rule pow2_add)
    also have "pow2 23 = 2 ^ 23" by (simp add: pow2_def)
    finally show ?thesis by simp
  qed
  also have "\<dots> \<le> x / 2 ^ 24" using kx by (simp add: divide_right_mono)
  finally show ?thesis .
qed


lemma f32_round_between:
  assumes "pow2 (- 126) \<le> x"
  shows "x * (16777215 / 16777216) \<le> f32_round x"
    and "f32_round x \<le> x * (16777217 / 16777216)"
proof -
  have "\<bar>f32_round x - x\<bar> \<le> x / 16777216"
    using f32_round_error [OF assms] by simp
  then have lo: "x - x / 16777216 \<le> f32_round x" and hi: "f32_round x \<le> x + x / 16777216"
    by linarith+
  have "x * (16777215 / 16777216) = x - x / 16777216" by simp
  with lo show "x * (16777215 / 16777216) \<le> f32_round x" by simp
  have "x * (16777217 / 16777216) = x + x / 16777216" by simp
  with hi show "f32_round x \<le> x * (16777217 / 16777216)" by simp
qed

lemma pow2_m126_le_1: "pow2 (- 126) \<le> 1"
  using pow2_mono [of "- 126" 0] by (simp add: pow2_def)

lemma rate_error:
  fixes c E :: nat
  assumes c: "c < 2 ^ 32" and E1: "1000000 \<le> E" and E2: "E < 2 ^ 64"
  shows "\<bar>f32_div (f32_round (of_nat c)) (f32_div (f32_round (of_nat E)) 1000000)
            - spec_rate c E\<bar> \<le> spec_rate c E / 2 ^ 21"
proof (cases "c = 0")
  case True
  then show ?thesis by (simp add: f32_div_def f32_round_def spec_rate_def)
next
  case False
  define C :: rat where "C = of_nat c"
  define T :: rat where "T = of_nat E"
  define fc where "fc = f32_round C"
  define fE where "fE = f32_round T"
  define x3 where "x3 = fE / 1000000"
  define es where "es = f32_round x3"
  define x4 where "x4 = fc / es"
  define rate where "rate = f32_round x4"
  define q where "q = C / (T / 1000000)"
  have C1: "1 \<le> C" using False by (simp add: C_def Suc_le_eq)
  have T1: "1000000 \<le> T"
  proof -
    have "(of_nat 1000000 :: rat) \<le> of_nat E" using E1 by (simp only: of_nat_le_iff)
    then show ?thesis by (simp add: T_def)
  qed
  have T2: "T \<le> 2 ^ 64"
  proof -
    have "(of_nat E :: rat) \<le> of_nat (2 ^ 64)" using E2 by (simp only: of_nat_le_iff less_imp_le)
    then show ?thesis by (simp add: T_def)
  qed
  have q0: "0 < q" using C1 T1 by (simp add: q_def)
  \<comment> \<open>the four roundings\<close>
  have nC: "pow2 (- 126) \<le> C" using pow2_m126_le_1 C1 by linarith
  have nT: "pow2 (- 126) \<le> T" using pow2_m126_le_1 T1 by linarith
  have fc_lo: "C * (16777215 / 16777216) \<le> fc" and fc_hi: "fc \<le> C * (16777217 / 16777216)"
    unfolding fc_def using f32_round_between [OF nC] by simp_all
  have fE_lo: "T * (16777215 / 16777216) \<le> fE" and fE_hi: "fE \<le> T * (16777217 / 16777216)"
    unfolding fE_def using f32_round_between [OF nT] by simp_all
  have fc1: "1 \<le> fc" unfolding fc_def using C1 by (rule f32_round_ge_1)
  have fE1: "1000000 \<le> fE" unfolding fE_def using T1 by (rule f32_round_ge_million)
  have x31: "1 \<le> x3" using fE1 by (simp add: x3_def)
  have n3: "pow2 (- 126) \<le> x3" using pow2_m126_le_1 x31 by linarith
  have es_lo: "x3 * (16777215 / 16777216) \<le> es" and es_hi: "es \<le> x3 * (16777217 / 16777216)"
    unfolding es_def using f32_round_between [OF n3] by simp_all
  have es1: "1 \<le> es" unfolding es_def using x31 by (rule f32_round_ge_1)
  have es_lo': "T * (16777215 / 16777216) * (16777215 / 16777216) / 1000000 \<le> es"
  proof -
    have "T * (16777215 / 16777216) / 1000000 \<le> x3"
      using fE_lo by (simp add: x3_def divide_right_mono)
    then have "T * (16777215 / 16777216) / 1000000 * (16777215 / 16777216)
        \<le> x3 * (16777215 / 16777216)"
      by (rule mult_right_mono) simp
    with es_lo show ?thesis by simp
  qed
  have es_hi': "es \<le> T * (16777217 / 16777216) * (16777217 / 16777216) / 1000000"
  proof -
    have "x3 \<le> T * (16777217 / 16777216) / 1000000"
      using fE_hi by (simp add: x3_def divide_right_mono)
    then have "x3 * (16777217 / 16777216)
        \<le> T * (16777217 / 16777216) / 1000000 * (16777217 / 16777216)"
      by (rule mult_right_mono) simp
    with es_hi show ?thesis by simp
  qed
  have es46: "es \<le> 2 ^ 46"
  proof -
    have "T * (16777217 / 16777216) * (16777217 / 16777216) / 1000000
        \<le> 2 ^ 64 * (16777217 / 16777216) * (16777217 / 16777216) / 1000000"
      using T2 by (simp add: divide_right_mono mult_right_mono)
    also have "\<dots> \<le> 2 ^ 46" by simp
    finally show ?thesis using es_hi' by linarith
  qed
  have n4: "pow2 (- 126) \<le> x4"
  proof -
    have "pow2 (- 126) \<le> pow2 (- 46)" by (rule pow2_mono) simp
    also have "pow2 (- 46) = 1 / 2 ^ 46" by (simp add: pow2_def)
    also have "\<dots> \<le> fc / es"
      using fc1 es1 es46 by (intro frac_le) simp_all
    finally show ?thesis by (simp add: x4_def)
  qed
  have r_lo: "x4 * (16777215 / 16777216) \<le> rate" and r_hi: "rate \<le> x4 * (16777217 / 16777216)"
    unfolding rate_def using f32_round_between [OF n4] by simp_all
  \<comment> \<open>upper bound\<close>
  have es_pos: "0 < es" using es1 by linarith
  have lo_pos: "0 < T * (16777215 / 16777216) * (16777215 / 16777216) / 1000000"
    using T1 by simp
  have "rate \<le> fc * (16777217 / 16777216) / es"
    using r_hi by (simp add: x4_def)
  also have "\<dots> \<le> C * (16777217 / 16777216) * (16777217 / 16777216)
      / (T * (16777215 / 16777216) * (16777215 / 16777216) / 1000000)"
  proof (rule frac_le)
    show "0 \<le> C * (16777217 / 16777216) * (16777217 / 16777216)" using C1 by simp
    show "fc * (16777217 / 16777216) \<le> C * (16777217 / 16777216) * (16777217 / 16777216)"
      using fc_hi by (rule mult_right_mono) simp
    show "0 < T * (16777215 / 16777216) * (16777215 / 16777216) / 1000000" by (rule lo_pos)
    show "T * (16777215 / 16777216) * (16777215 / 16777216) / 1000000 \<le> es" by (rule es_lo')
  qed
  also have "\<dots> = q * (281475010265089 / 281474943156225)"
    using T1 by (simp add: q_def field_simps)
  also have "\<dots> \<le> q * (1 + 1 / 2 ^ 21)"
    by (rule mult_left_mono) (use q0 in simp_all)
  finally have upper: "rate \<le> q + q / 2 ^ 21" by (simp add: field_simps)
  \<comment> \<open>lower bound\<close>
  have "q * (1 - 1 / 2 ^ 21) \<le> q * (281474943156225 / 281475010265089)"
    by (rule mult_left_mono) (use q0 in simp_all)
  also have "\<dots> = C * (16777215 / 16777216) * (16777215 / 16777216)
      / (T * (16777217 / 16777216) * (16777217 / 16777216) / 1000000)"
    using T1 by (simp add: q_def field_simps)
  also have "\<dots> \<le> fc * (16777215 / 16777216) / es"
  proof (rule frac_le)
    show "0 \<le> fc * (16777215 / 16777216)" using fc1 by simp
    show "C * (16777215 / 16777216) * (16777215 / 16777216) \<le> fc * (16777215 / 16777216)"
      using fc_lo by (rule mult_right_mono) simp
    show "0 < es" by (rule es_pos)
    show "es \<le> T * (16777217 / 16777216) * (16777217 / 16777216) / 1000000" by (rule es_hi')
  qed
  also have "\<dots> \<le> rate" using r_lo by (simp add: x4_def)
  finally have lower: "q - q / 2 ^ 21 \<le> rate" by (simp add: field_simps)
  have "rate \<le> q + q / 2097152" "q - q / 2097152 \<le> rate"
    using upper lower by simp_all
  then have "\<bar>rate - q\<bar> \<le> q / 2097152" by linarith
  then have "\<bar>rate - q\<bar> \<le> q / 2 ^ 21" by simp
  then show ?thesis
    by (simp add: rate_def x4_def fc_def es_def x3_def fE_def q_def C_def T_def f32_div_def
        spec_rate_def)
qed


lemma f32_round_third: "f32_round (1 / 3) = 11184811 / 33554432"
proof -
  have k: "floor_log2 (1 / 3) = - 2"
    by (rule floor_log2_unique) (simp_all add: pow2_def)
  have p: "pow2 (- 25) = 1 / 33554432" by (simp add: pow2_def)
  have fl: "\<lfloor>33554432 / 3 :: rat\<rfloor> = 11184810"
    by (rule floor_unique) simp_all
  have r: "round_half_even (33554432 / 3) = 11184811"
    by (simp add: round_half_even_def Let_def fl)
  have "f32_round (1 / 3) = of_int (round_half_even ((1 / 3) / pow2 (- 25))) * pow2 (- 25)"
    using f32_round_pos [of "1 / 3"] by (simp add: k)
  then show ?thesis by (simp add: p r)
qed

section \<open>Properties of the acquisition task\<close>

subsection \<open>Failed cycles and the pacing of the loop\<close>

lemma imu_loop_append:
  "imu_loop pd s (xs @ ys) =
     (case imu_loop pd s xs of (e1, s1) \<Rightarrow>
        case imu_loop pd s1 ys of (e2, s2) \<Rightarrow> (e1 @ e2, s2))"
  by (induction xs arbitrary: s) (auto split: prod.splits)

lemma imu_cycle_None:
  "imu_cycle pd s None =
     ([Log_read_failed, Task_delay (pd 5), Task_delay_until (tick_delay_of (pd 1))], s)"
  by (simp add: imu_cycle_def)

lemma tick_delay_of_ge_1: "1 \<le> tick_delay_of f"
  by (simp add: tick_delay_of_def word_le_nat_alt word_less_nat_alt) 

lemma imu_cycle_delay_until:
  "filter is_delay_until (fst (imu_cycle pd s r)) = [Task_delay_until (tick_delay_of (pd 1))]"
  by (cases r) (simp_all add: imu_cycle_def Let_def)

lemma imu_cycle_last:
  "last (fst (imu_cycle pd s r)) = Task_delay_until (tick_delay_of (pd 1))"
  by (cases r) (simp_all add: imu_cycle_def Let_def)

lemma imu_loop_delay_until:
  "map (filter is_delay_until) (fst (imu_loop pd s rs)) =
     replicate (length rs) [Task_delay_until (tick_delay_of (pd 1))]"
proof (induction rs arbitrary: s)
  case Nil
  show ?case by simp
next
  case (Cons r rs)
  obtain ev s1 where c: "imu_cycle pd s r = (ev, s1)" by (cases "imu_cycle pd s r")
  obtain evs s2 where l: "imu_loop pd s1 rs = (evs, s2)" by (cases "imu_loop pd s1 rs")
  have "filter is_delay_until ev = [Task_delay_until (tick_delay_of (pd 1))]"
    using imu_cycle_delay_until [of pd s r] by (simp add: c)
  moreover have "map (filter is_delay_until) evs =
      replicate (length rs) [Task_delay_until (tick_delay_of (pd 1))]"
    using Cons.IH [of s1] by (simp add: l)
  ultimately show ?case by (simp add: c l)
qed

text \<open>
  C3: a cycle whose decode fails pushes nothing and leaves the store and the three window
  variables as they were.
\<close>

theorem decode_failure_changes_nothing:
  "snd (imu_cycle pd s None) = s
   \<and> snd (imu_loop pd s [None, None, None]) = s
   \<and> sequence_id (buffer (snd (imu_loop pd s [None, None, None]))) = sequence_id (buffer s)
   \<and> slots (buffer (snd (imu_loop pd s [None, None, None]))) = slots (buffer s)
   \<and> (\<exists>evs s1.
         imu_task pd True t0 b rs = Task_running evs s1
         \<and> imu_task pd True t0 b (rs @ [None, None, None]) =
             Task_running
               (evs @ replicate 3
                  [Log_read_failed, Task_delay (pd 5), Task_delay_until (tick_delay_of (pd 1))])
               s1)"
proof -
  have three: "imu_loop pd s' [None, None, None] =
      (replicate 3 [Log_read_failed, Task_delay (pd 5), Task_delay_until (tick_delay_of (pd 1))], s')"
    for s'
    by (simp add: imu_cycle_None numeral_3_eq_3)
  obtain evs s1 where l: "imu_loop pd
      \<lparr>buffer = b, batch_count = 0, sample_accumulator = 0, stats_window_start = t0\<rparr> rs = (evs, s1)"
    by (cases "imu_loop pd
      \<lparr>buffer = b, batch_count = 0, sample_accumulator = 0, stats_window_start = t0\<rparr> rs")
  have "imu_task pd True t0 b rs = Task_running evs s1"
    by (simp add: imu_task_def l)
  moreover have "imu_task pd True t0 b (rs @ [None, None, None]) =
      Task_running
        (evs @ replicate 3
           [Log_read_failed, Task_delay (pd 5), Task_delay_until (tick_delay_of (pd 1))]) s1"
    by (simp only: imu_task_def imu_loop_append l three prod.case if_False not_True_eq_False)
  ultimately show ?thesis by (simp add: imu_cycle_None three)
qed

text \<open>
  C10: the period handed to vTaskDelayUntil is at least one tick, and every iteration,
  successful or not, calls vTaskDelayUntil exactly once, as its last action.
\<close>

theorem delay_until_once_per_iteration:
  "1 \<le> tick_delay_of frequency
   \<and> tick_delay_of frequency = (if 0 < frequency then frequency else 1)
   \<and> filter is_delay_until (fst (imu_cycle pd s r)) = [Task_delay_until (tick_delay_of (pd 1))]
   \<and> last (fst (imu_cycle pd s r)) = Task_delay_until (tick_delay_of (pd 1))
   \<and> length (fst (imu_loop pd s rs)) = length rs
   \<and> map (filter is_delay_until) (fst (imu_loop pd s rs)) =
       replicate (length rs) [Task_delay_until (tick_delay_of (pd 1))]"
proof -
  have "length (map (filter is_delay_until) (fst (imu_loop pd s rs))) = length rs"
    by (simp only: imu_loop_delay_until length_replicate)
  then have len: "length (fst (imu_loop pd s rs)) = length rs" by simp
  have def: "tick_delay_of frequency = (if 0 < frequency then frequency else 1)"
    by (simp add: tick_delay_of_def)
  show ?thesis
    using tick_delay_of_ge_1 [of frequency] def imu_cycle_delay_until [of pd s r]
      imu_cycle_last [of pd s r] len imu_loop_delay_until [of pd s rs]
    by (intro conjI)
qed

subsection \<open>The statistics window\<close>

lemma imu_cycle_Some:
  "imu_cycle pd s (Some d) =
     (if 1000000 \<le> timestamp_us d - stats_window_start s then
        ([Log_stats
            (f32_div (f32_of_u32 (batch_count s + 1))
               (f32_div (f32_of_u64 (timestamp_us d - stats_window_start s)) 1000000))
            (f32_div (f32_of_u32 (sample_accumulator s + ucast (samples_read (stats d))))
               (f32_div (f32_of_u64 (timestamp_us d - stats_window_start s)) 1000000))
            (magnitude_g (accelerometer d)) (fifo_level (stats d)) (samples_read (stats d)),
          Task_delay_until (tick_delay_of (pd 1))],
         \<lparr>buffer = data_buffer_add d (buffer s), batch_count = 0, sample_accumulator = 0,
          stats_window_start = timestamp_us d\<rparr>)
      else
        ([Task_delay_until (tick_delay_of (pd 1))],
         \<lparr>buffer = data_buffer_add d (buffer s), batch_count = batch_count s + 1,
          sample_accumulator = sample_accumulator s + ucast (samples_read (stats d)),
          stats_window_start = stats_window_start s\<rparr>))"
  by (simp add: imu_cycle_def Let_def)

lemma imu_loop_open:
  assumes "\<forall>c\<in>set ds. timestamp_us c - stats_window_start s < 1000000"
  shows "imu_loop pd s (map Some ds) =
     (replicate (length ds) [Task_delay_until (tick_delay_of (pd 1))],
      \<lparr>buffer = pushes ds (buffer s),
       batch_count = batch_count s + of_nat (length ds),
       sample_accumulator =
         sample_accumulator s + sum_list (map (\<lambda>c. ucast (samples_read (stats c))) ds),
       stats_window_start = stats_window_start s\<rparr>)"
  using assms
proof (induction ds arbitrary: s)
  case Nil
  show ?case by (simp add: pushes_def)
next
  case (Cons c ds)
  have c: "\<not> 1000000 \<le> timestamp_us c - stats_window_start s"
    using Cons.prems by (simp add: not_le)
  define s1 where "s1 = \<lparr>buffer = data_buffer_add c (buffer s), batch_count = batch_count s + 1,
          sample_accumulator = sample_accumulator s + ucast (samples_read (stats c)),
          stats_window_start = stats_window_start s\<rparr>"
  have step: "imu_cycle pd s (Some c) = ([Task_delay_until (tick_delay_of (pd 1))], s1)"
    using c by (simp add: imu_cycle_Some s1_def)
  have "\<forall>c\<in>set ds. timestamp_us c - stats_window_start s1 < 1000000"
    using Cons.prems by (simp add: s1_def)
  from Cons.IH [OF this] show ?case
    by (simp add: step s1_def pushes_def add.assoc)
qed

lemma elapsed_s_ge_1:
  fixes w :: "64 word"
  assumes "1000000 \<le> w"
  shows "1 \<le> f32_div (f32_of_u64 w) 1000000"
proof -
  have "unat (1000000 :: 64 word) \<le> unat w" using assms by (simp only: word_le_nat_alt)
  then have "(1000000 :: nat) \<le> unat w" by simp
  then have "(of_nat 1000000 :: rat) \<le> of_nat (unat w)" by (simp only: of_nat_le_iff)
  then have "1000000 \<le> f32_of_u64 w"
    unfolding f32_of_u64_def by (intro f32_round_ge_million) simp
  then have "1 \<le> f32_of_u64 w / 1000000" by simp
  then show ?thesis unfolding f32_div_def by (rule f32_round_ge_1)
qed

lemma window_rate_error:
  fixes count :: "32 word" and elapsed :: "64 word"
  assumes "1000000 \<le> elapsed"
  shows "\<bar>f32_div (f32_of_u32 count) (f32_div (f32_of_u64 elapsed) 1000000)
            - spec_rate (unat count) (unat elapsed)\<bar>
         \<le> spec_rate (unat count) (unat elapsed) / 2 ^ 21"
proof -
  have c: "unat count < 2 ^ 32" using unsigned_less [of count] by simp
  have e2: "unat elapsed < 2 ^ 64" using unsigned_less [of elapsed] by simp
  have "unat (1000000 :: 64 word) \<le> unat elapsed" using assms by (simp only: word_le_nat_alt)
  then have e1: "1000000 \<le> unat elapsed" by simp
  show ?thesis
    unfolding f32_of_u32_def f32_of_u64_def by (rule rate_error [OF c e1 e2])
qed

lemma imu_loop_window:
  assumes opn: "\<forall>c\<in>set ds. timestamp_us c - stats_window_start s < 1000000"
  shows "imu_loop pd s (map Some (ds @ [d])) =
     (if 1000000 \<le> timestamp_us d - stats_window_start s then
        (replicate (length ds) [Task_delay_until (tick_delay_of (pd 1))] @
         [[Log_stats
            (f32_div (f32_of_u32 (batch_count s + of_nat (length (ds @ [d]))))
               (f32_div (f32_of_u64 (timestamp_us d - stats_window_start s)) 1000000))
            (f32_div
               (f32_of_u32 (sample_accumulator s +
                  sum_list (map (\<lambda>c. ucast (samples_read (stats c))) (ds @ [d]))))
               (f32_div (f32_of_u64 (timestamp_us d - stats_window_start s)) 1000000))
            (magnitude_g (accelerometer d)) (fifo_level (stats d)) (samples_read (stats d)),
          Task_delay_until (tick_delay_of (pd 1))]],
         \<lparr>buffer = pushes (ds @ [d]) (buffer s), batch_count = 0, sample_accumulator = 0,
          stats_window_start = timestamp_us d\<rparr>)
      else
        (replicate (length ds) [Task_delay_until (tick_delay_of (pd 1))] @
         [[Task_delay_until (tick_delay_of (pd 1))]],
         \<lparr>buffer = pushes (ds @ [d]) (buffer s),
          batch_count = batch_count s + of_nat (length (ds @ [d])),
          sample_accumulator =
            sample_accumulator s +
            sum_list (map (\<lambda>c. ucast (samples_read (stats c))) (ds @ [d])),
          stats_window_start = stats_window_start s\<rparr>))"
  by (simp add: imu_loop_append imu_loop_open [OF opn] imu_cycle_Some pushes_def ac_simps)

text \<open>
  C1, as amended: take successful cycles \<open>ds\<close> that leave the window open, followed by
  a successful cycle \<open>d\<close>. The window closes on \<open>d\<close> exactly when the timestamp of
  \<open>d\<close> minus \<^verbatim>\<open>stats_window_start\<close>, in unsigned 64-bit arithmetic, is at least
  1,000,000. At the close the reported batches per second are the batch count divided by
  the elapsed seconds, and the reported samples per second are the accumulated drained
  items divided by the elapsed seconds, both computed in \<^verbatim>\<open>float\<close>: each reported
  rate is within a relative error of \<open>1 / 2 ^ 21\<close> of the exact quotient
  \<open>spec_rate\<close> of the counter (a 32-bit value) and the elapsed microseconds, and the
  elapsed seconds are at least 1. Then the window start is the timestamp of \<open>d\<close> and
  both accumulators are zero. Otherwise nothing is reported, the window start stays and
  the accumulators hold the two counts. The batch count is what the counter held before
  \<open>ds\<close> plus the number of cycles since, the accumulated items what the accumulator
  held plus the items drained since, both modulo \<open>2 ^ 32\<close>; in a window that was opened
  by the task start or by a close, both start from zero.
\<close>

theorem stats_window_close:
  assumes "\<forall>c\<in>set ds. timestamp_us c - stats_window_start s < 1000000"
  shows
    "let elapsed = timestamp_us d - stats_window_start s;
         elapsed_s = f32_div (f32_of_u64 elapsed) 1000000;
         batches = batch_count s + of_nat (length (ds @ [d]));
         items = sample_accumulator s +
                 sum_list (map (\<lambda>c. ucast (samples_read (stats c))) (ds @ [d]));
         msg_per_sec = f32_div (f32_of_u32 batches) elapsed_s;
         samples_per_sec = f32_div (f32_of_u32 items) elapsed_s;
         r = imu_loop pd s (map Some (ds @ [d]))
     in if 1000000 \<le> elapsed then
          window_reports (fst r) = replicate (length ds) [] @ [[(msg_per_sec, samples_per_sec)]]
          \<and> \<bar>msg_per_sec - spec_rate (unat batches) (unat elapsed)\<bar>
              \<le> spec_rate (unat batches) (unat elapsed) / 2 ^ 21
          \<and> \<bar>samples_per_sec - spec_rate (unat items) (unat elapsed)\<bar>
              \<le> spec_rate (unat items) (unat elapsed) / 2 ^ 21
          \<and> 1 \<le> elapsed_s
          \<and> stats_window_start (snd r) = timestamp_us d
          \<and> batch_count (snd r) = 0
          \<and> sample_accumulator (snd r) = 0
        else
          window_reports (fst r) = replicate (length ds) [] @ [[]]
          \<and> stats_window_start (snd r) = stats_window_start s
          \<and> batch_count (snd r) = batches
          \<and> sample_accumulator (snd r) = items"
proof (cases "1000000 \<le> timestamp_us d - stats_window_start s")
  case True
  note b = window_rate_error [OF True,
      of "batch_count s + of_nat (length (ds @ [d]))"]
  note i = window_rate_error [OF True,
      of "sample_accumulator s +
          sum_list (map (\<lambda>c. ucast (samples_read (stats c))) (ds @ [d]))"]
  from elapsed_s_ge_1 [OF True] True b i show ?thesis
    unfolding Let_def imu_loop_window [OF assms]
    by (simp add: window_reports_def List.map_filter_simps)
next
  case False
  then show ?thesis
    unfolding Let_def imu_loop_window [OF assms]
    by (simp add: window_reports_def List.map_filter_simps)
qed

theorem stats_window_close_witness:
  "timestamp_us (example_sample 400000 3) - 0 < (1000000 :: 64 word)
   \<and> window_reports (fst (imu_loop of_nat
         \<lparr>buffer = data_buffer_init 128, batch_count = 0, sample_accumulator = 0,
          stats_window_start = 0\<rparr>
         (map Some ([example_sample 400000 3] @ [example_sample 1000000 5])))) = [[], [(2, 8)]]
   \<and> stats_window_start (snd (imu_loop of_nat
         \<lparr>buffer = data_buffer_init 128, batch_count = 0, sample_accumulator = 0,
          stats_window_start = 0\<rparr>
         (map Some ([example_sample 400000 3] @ [example_sample 1000000 5])))) = 1000000"
  using stats_window_close [where
      s = "\<lparr>buffer = data_buffer_init 128, batch_count = 0, sample_accumulator = 0,
          stats_window_start = 0\<rparr>"
      and ds = "[example_sample 400000 3]" and pd = of_nat
      and d = "example_sample 1000000 5"]
  by (simp add: Let_def example_sample_def f32_div_def
      f32_of_u64_small_nat [of 1000000, simplified] f32_of_u32_small_nat [of 2, simplified]
      f32_of_u32_small_nat [of 8, simplified] f32_round_small_nat [of 1, simplified]
      f32_round_small_nat [of 2, simplified] f32_round_small_nat [of 8, simplified])

text \<open>
  C1, as stated, fails: the reported rates are not always equal to the count divided by
  the elapsed seconds. A window that closes on its first sample after 3,000,000
  microseconds, with one item drained, reports 11184811 / 33554432 for both rates, the
  \<^verbatim>\<open>float\<close> nearest to one third, and not one third.
\<close>

theorem stats_rate_is_rounded:
  "window_reports (outcome_events (imu_task of_nat True 0 (data_buffer_init 128)
      [Some (example_sample 3000000 1)])) = [[(11184811 / 33554432, 11184811 / 33554432)]]
   \<and> spec_rate 1 3000000 = 1 / 3
   \<and> (11184811 / 33554432 :: rat) \<noteq> spec_rate 1 3000000"
  by (simp add: imu_task_def imu_cycle_Some example_sample_def window_reports_def
      List.map_filter_simps f32_div_def spec_rate_def f32_round_third
      f32_of_u64_small_nat [of 3000000, simplified] f32_of_u32_small_nat [of 1, simplified]
      f32_round_small_nat [of 3, simplified])

lemma upt_1_11: "[Suc 0..<11] = [1, 2, 3, 4, 5, 6, 7, 8, 9, 10]"
  by (simp add: upt_rec)

text \<open>
  C2: on the synthetic trace of 10 successful cycles, 100,000 microseconds apart starting
  one spacing after the window start, 100 items drained in each, the first nine cycles
  report nothing and the tenth closes the window with 10.0 batches per second and 1000.0
  samples per second.
\<close>

theorem synthetic_trace_throughput:
  "window_reports (outcome_events (imu_task pd True start b (synthetic_trace start d))) =
     replicate 9 [] @ [[(10, 1000)]]"
proof -
  have r: "replicate 9 [] @ [[(10, 1000)]] =
      [[], [], [], [], [], [], [], [], [], [(10 :: c_float, 1000 :: c_float)]]"
    by (simp add: numeral_eq_Suc)
  show ?thesis
    unfolding r
    by (simp add: imu_task_def synthetic_trace_def synthetic_cycle_def upt_1_11 imu_cycle_Some
      window_reports_def List.map_filter_simps f32_div_def
      f32_of_u64_small_nat [of 1000000, simplified] f32_of_u32_small_nat [of 10, simplified]
      f32_of_u32_small_nat [of 1000, simplified] f32_round_small_nat [of 1, simplified]
      f32_round_small_nat [of 10, simplified] f32_round_small_nat [of 1000, simplified])
qed

subsection \<open>Replaying a sample trace\<close>

lemma imu_cycle_reports:
  assumes "batch_count s = batch_count s'"
    and "sample_accumulator s = sample_accumulator s'"
    and "stats_window_start s = stats_window_start s'"
    and "map_option (\<lambda>d. (timestamp_us d, samples_read (stats d))) r =
         map_option (\<lambda>d. (timestamp_us d, samples_read (stats d))) r'"
  shows "List.map_filter throughput (fst (imu_cycle pd s r)) =
         List.map_filter throughput (fst (imu_cycle pd' s' r'))
     \<and> batch_count (snd (imu_cycle pd s r)) = batch_count (snd (imu_cycle pd' s' r'))
     \<and> sample_accumulator (snd (imu_cycle pd s r)) =
         sample_accumulator (snd (imu_cycle pd' s' r'))
     \<and> stats_window_start (snd (imu_cycle pd s r)) =
         stats_window_start (snd (imu_cycle pd' s' r'))"
proof (cases r)
  case None
  then have "r' = None" using assms(4) by simp
  with None assms(1-3) show ?thesis
    by (simp add: imu_cycle_None List.map_filter_simps)
next
  case (Some d)
  then obtain d' where r': "r' = Some d'" using assms(4) by (cases r') simp_all
  have "timestamp_us d = timestamp_us d'" "samples_read (stats d) = samples_read (stats d')"
    using assms(4) Some r' by simp_all
  with assms(1-3) show ?thesis
    by (simp add: Some r' imu_cycle_Some List.map_filter_simps)
qed

lemma imu_loop_reports:
  assumes "sample_trace rs = sample_trace rs'"
    and "batch_count s = batch_count s'"
    and "sample_accumulator s = sample_accumulator s'"
    and "stats_window_start s = stats_window_start s'"
  shows "window_reports (fst (imu_loop pd s rs)) = window_reports (fst (imu_loop pd' s' rs'))"
  using assms
proof (induction rs arbitrary: rs' s s')
  case Nil
  then show ?case by (simp add: sample_trace_def window_reports_def)
next
  case (Cons r rs)
  from Cons.prems(1) obtain r' rs1 where rs': "rs' = r' # rs1"
    by (cases rs') (simp_all add: sample_trace_def)
  have hd: "map_option (\<lambda>d. (timestamp_us d, samples_read (stats d))) r =
         map_option (\<lambda>d. (timestamp_us d, samples_read (stats d))) r'"
    and tl: "sample_trace rs = sample_trace rs1"
    using Cons.prems(1) by (simp_all add: rs' sample_trace_def)
  obtain ev s1 where c: "imu_cycle pd s r = (ev, s1)" by (cases "imu_cycle pd s r")
  obtain ev' s1' where c': "imu_cycle pd' s' r' = (ev', s1')" by (cases "imu_cycle pd' s' r'")
  obtain evs s2 where l: "imu_loop pd s1 rs = (evs, s2)" by (cases "imu_loop pd s1 rs")
  obtain evs' s2' where l': "imu_loop pd' s1' rs1 = (evs', s2')"
    by (cases "imu_loop pd' s1' rs1")
  from imu_cycle_reports [OF Cons.prems(2-4) hd, of pd pd']
  have step: "List.map_filter throughput ev = List.map_filter throughput ev'"
    "batch_count s1 = batch_count s1'" "sample_accumulator s1 = sample_accumulator s1'"
    "stats_window_start s1 = stats_window_start s1'"
    by (simp_all add: c c')
  from Cons.IH [OF tl step(2-4)]
  have "window_reports evs = window_reports evs'" by (simp add: l l')
  with step(1) show ?case by (simp add: rs' c c' l l' window_reports_def)
qed

lemma imu_task_events:
  "outcome_events (imu_task pd True t0 b rs) =
     fst (imu_loop pd
       \<lparr>buffer = b, batch_count = 0, sample_accumulator = 0, stats_window_start = t0\<rparr> rs)"
  by (cases "imu_loop pd
       \<lparr>buffer = b, batch_count = 0, sample_accumulator = 0, stats_window_start = t0\<rparr> rs")
    (simp add: imu_task_def)

text \<open>
  C7, as amended: the throughput values and the iterations at which they are reported
  depend on the decode results only through the timestamps and the drained-item counts,
  and on nothing else that varies between runs (the store, the tick rate, the other
  fields), provided both runs start from the same \<^verbatim>\<open>stats_window_start\<close>, the one
  value read from \<^verbatim>\<open>esp_timer_get_time()\<close> before the loop.
\<close>

theorem stats_replay_same_window_start:
  assumes "sample_trace rs = sample_trace rs'"
  shows "window_reports (outcome_events (imu_task pd True t0 b rs)) =
         window_reports (outcome_events (imu_task pd' True t0 b' rs'))"
proof -
  have "window_reports (fst (imu_loop pd
      \<lparr>buffer = b, batch_count = 0, sample_accumulator = 0, stats_window_start = t0\<rparr> rs)) =
    window_reports (fst (imu_loop pd'
      \<lparr>buffer = b', batch_count = 0, sample_accumulator = 0, stats_window_start = t0\<rparr> rs'))"
    by (rule imu_loop_reports [OF assms]) simp_all
  then show ?thesis by (simp only: imu_task_events)
qed

theorem stats_replay_same_window_start_witness:
  "sample_trace [Some (example_sample 1000000 100)] =
     sample_trace [Some ((example_sample 1000000 100)\<lparr>accelerometer :=
        \<lparr>x_g = 1, y_g = 0, z_g = 0, magnitude_g = 1, valid = False\<rparr>\<rparr>)]
   \<and> window_reports (outcome_events (imu_task of_nat True 0 (data_buffer_init 128)
         [Some (example_sample 1000000 100)])) =
       window_reports (outcome_events (imu_task (\<lambda>ms. 10 * of_nat ms) True 0 (data_buffer_init 4)
         [Some ((example_sample 1000000 100)\<lparr>accelerometer :=
            \<lparr>x_g = 1, y_g = 0, z_g = 0, magnitude_g = 1, valid = False\<rparr>\<rparr>)]))"
proof -
  have t: "sample_trace [Some (example_sample 1000000 100)] =
     sample_trace [Some ((example_sample 1000000 100)\<lparr>accelerometer :=
        \<lparr>x_g = 1, y_g = 0, z_g = 0, magnitude_g = 1, valid = False\<rparr>\<rparr>)]"
    by (simp add: sample_trace_def example_sample_def)
  from t stats_replay_same_window_start [OF t] show ?thesis by (intro conjI)
qed

text \<open>
  C7, as stated, fails: the same one-sample trace closes the window when the clock read
  before the loop was 0 and leaves it open when it was 500000.
\<close>

theorem stats_depend_on_initial_clock_read:
  "window_reports (outcome_events (imu_task of_nat True 0 (data_buffer_init 128)
      [Some (example_sample 1000000 100)])) \<noteq>
   window_reports (outcome_events (imu_task of_nat True 500000 (data_buffer_init 128)
      [Some (example_sample 1000000 100)]))"
  by (simp add: imu_task_def imu_cycle_Some example_sample_def window_reports_def
      List.map_filter_simps)

subsection \<open>Timestamps earlier than the window start\<close>

lemma wrapped_difference:
  fixes now start :: "64 word"
  assumes "now < start"
  shows "1000000 \<le> now - start \<longleftrightarrow> unat start - unat now \<le> 2 ^ 64 - 1000000"
proof -
  have lt: "unat now < unat start" using assms by (simp only: word_less_nat_alt)
  have b: "unat start < 2 ^ 64" using unsigned_less [of start] by simp
  have "unat (now - start) = unat now + 2 ^ 64 - unat start"
    using lt by (simp add: unat_sub_if_size word_size)
  moreover have "unat (1000000 :: 64 word) = 1000000" by simp
  ultimately have "1000000 \<le> now - start \<longleftrightarrow> 1000000 \<le> unat now + 2 ^ 64 - unat start"
    by (simp only: word_le_nat_alt)
  also have "\<dots> \<longleftrightarrow> unat start - unat now \<le> 2 ^ 64 - 1000000"
    using lt b by linarith
  finally show ?thesis .
qed

lemma imu_cycle_closed:
  "window_closed (fst (imu_cycle pd s (Some d))) \<longleftrightarrow>
     1000000 \<le> timestamp_us d - stats_window_start s"
  by (simp add: imu_cycle_Some window_closed_def List.map_filter_simps)

lemma imu_cycle_window_start:
  "stats_window_start (snd (imu_cycle pd s (Some d))) =
     (if 1000000 \<le> timestamp_us d - stats_window_start s then timestamp_us d
      else stats_window_start s)"
  by (simp add: imu_cycle_Some)

text \<open>
  C9, as amended: for a successful cycle whose timestamp is below
  \<^verbatim>\<open>stats_window_start\<close>, the unsigned difference wraps, and the window closes on that
  cycle exactly when \<^verbatim>\<open>stats_window_start\<close> exceeds the timestamp by at most
  \<open>2 ^ 64 - 1000000\<close>; it closes in particular whenever \<^verbatim>\<open>stats_window_start\<close> is
  below \<open>2 ^ 63\<close>.
\<close>

theorem window_close_on_earlier_timestamp:
  assumes "timestamp_us d < stats_window_start s"
  shows "(window_closed (fst (imu_cycle pd s (Some d))) \<longleftrightarrow>
            unat (stats_window_start s) - unat (timestamp_us d) \<le> 2 ^ 64 - 1000000)
     \<and> (stats_window_start (snd (imu_cycle pd s (Some d))) = timestamp_us d \<longleftrightarrow>
            unat (stats_window_start s) - unat (timestamp_us d) \<le> 2 ^ 64 - 1000000)
     \<and> (if stats_window_start s < 2 ^ 63
         then window_closed (fst (imu_cycle pd s (Some d))) else True)"
proof -
  have ne: "stats_window_start s \<noteq> timestamp_us d" using assms by auto
  have w: "1000000 \<le> timestamp_us d - stats_window_start s \<longleftrightarrow>
      unat (stats_window_start s) - unat (timestamp_us d) \<le> 2 ^ 64 - 1000000"
    using assms by (rule wrapped_difference)
  have small: "unat (stats_window_start s) - unat (timestamp_us d) \<le> 2 ^ 64 - 1000000"
    if "stats_window_start s < 2 ^ 63"
  proof -
    have "unat (stats_window_start s) < unat (2 ^ 63 :: 64 word)"
      using that by (simp only: word_less_nat_alt)
    then show ?thesis by simp
  qed
  show ?thesis
    using ne small by (simp add: imu_cycle_closed imu_cycle_window_start w)
qed

theorem window_close_on_earlier_timestamp_witness:
  "timestamp_us (example_sample 1000 1) <
     stats_window_start \<lparr>buffer = data_buffer_init 128, batch_count = 0,
       sample_accumulator = 0, stats_window_start = 5000000\<rparr>
   \<and> window_closed (fst (imu_cycle of_nat
         \<lparr>buffer = data_buffer_init 128, batch_count = 0, sample_accumulator = 0,
          stats_window_start = 5000000\<rparr> (Some (example_sample 1000 1))))"
proof -
  have h: "timestamp_us (example_sample 1000 1) <
     stats_window_start \<lparr>buffer = data_buffer_init 128, batch_count = 0,
       sample_accumulator = 0, stats_window_start = 5000000\<rparr>"
    by (simp add: example_sample_def)
  from window_close_on_earlier_timestamp [OF h, of of_nat] h show ?thesis
    by (simp add: example_sample_def)
qed

text \<open>
  C9, as stated, fails: a first sample with timestamp \<open>2 ^ 64 - 1\<close> closes the window
  and becomes the window start; the next sample, with timestamp 0, is earlier than the
  window start, the difference wraps to 1, and the window stays open.
\<close>

theorem earlier_timestamp_window_stays_open:
  "stats_window_start (snd (imu_loop of_nat
       \<lparr>buffer = data_buffer_init 128, batch_count = 0, sample_accumulator = 0,
        stats_window_start = 0\<rparr>
       [Some (example_sample 18446744073709551615 1)])) = 18446744073709551615
   \<and> timestamp_us (example_sample 0 1) < 18446744073709551615
   \<and> \<not> window_closed (fst (imu_cycle of_nat
         (snd (imu_loop of_nat
            \<lparr>buffer = data_buffer_init 128, batch_count = 0, sample_accumulator = 0,
             stats_window_start = 0\<rparr>
            [Some (example_sample 18446744073709551615 1)]))
         (Some (example_sample 0 1))))"
  by (simp add: imu_cycle_Some example_sample_def window_closed_def List.map_filter_simps)

section \<open>Properties of the sample store\<close>

subsection \<open>The store after a push history\<close>

lemma pushes_Nil: "pushes [] b = b"
  by (simp add: pushes_def)

lemma pushes_snoc: "pushes (ds @ [d]) b = data_buffer_add d (pushes ds b)"
  by (simp add: pushes_def)

lemma add_slots:
  "slots (data_buffer_add d b) =
     (slots b)[(cursor b + 1) mod length (slots b) := Some (sequence_id b + 1, d)]"
  by (simp add: data_buffer_add_def Let_def)

lemma add_cursor: "cursor (data_buffer_add d b) = (cursor b + 1) mod length (slots b)"
  by (simp add: data_buffer_add_def Let_def)

lemma add_sequence_id: "sequence_id (data_buffer_add d b) = sequence_id b + 1"
  by (simp add: data_buffer_add_def Let_def)

lemma init_fields:
  "slots (data_buffer_init N) = replicate N None"
  "cursor (data_buffer_init N) = 0"
  "sequence_id (data_buffer_init N) = 0"
  by (simp_all add: data_buffer_init_def)

lemma pushes_length: "length (slots (pushes ds (data_buffer_init N))) = N"
  by (induction ds rule: rev_induct)
    (simp_all add: pushes_Nil pushes_snoc add_slots init_fields)

lemma pushes_cursor: "0 < N \<Longrightarrow> cursor (pushes ds (data_buffer_init N)) = length ds mod N"
  by (induction ds rule: rev_induct)
    (simp_all add: pushes_Nil pushes_snoc add_cursor pushes_length init_fields mod_Suc_eq)

lemma pushes_sequence_id: "sequence_id (pushes ds (data_buffer_init N)) = of_nat (length ds)"
  by (induction ds rule: rev_induct)
    (simp_all add: pushes_Nil pushes_snoc add_sequence_id init_fields add.commute)

lemma pushes_slots_snoc:
  assumes "0 < N"
  shows "slots (pushes (ds @ [d]) (data_buffer_init N)) =
     (slots (pushes ds (data_buffer_init N)))
       [Suc (length ds) mod N := Some (of_nat (Suc (length ds)), d)]"
  using assms
  by (simp add: pushes_snoc add_slots pushes_length pushes_cursor pushes_sequence_id mod_Suc_eq
      add.commute)

lemma ring_index_distinct:
  fixes i N q :: nat
  assumes "0 < i" "i < N" "i \<le> q"
  shows "(q - i) mod N \<noteq> q mod N"
proof
  assume "(q - i) mod N = q mod N"
  then have "q mod N = (q - i) mod N" by simp
  then have "N dvd q - (q - i)" using mod_eq_dvd_iff_nat [of "q - i" q N] by simp
  then have "N dvd i" using assms(3) by simp
  then have "N \<le> i" using assms(1) by (rule dvd_imp_le)
  with assms(2) show False by simp
qed

lemma pushes_written:
  assumes N: "0 < N"
  shows "i < min N (length ds) \<Longrightarrow>
     slots (pushes ds (data_buffer_init N)) ! ((length ds - i) mod N) =
       Some (of_nat (length ds - i), ds ! (length ds - i - 1))"
proof (induction ds arbitrary: i rule: rev_induct)
  case Nil
  then show ?case by simp
next
  case (snoc d ds)
  define p where "p = length ds"
  have lp: "length (ds @ [d]) = Suc p" by (simp add: p_def)
  have i: "i < N" "i \<le> Suc p" and ip: "i \<le> p" using snoc.prems by (simp_all add: p_def)
  have pN: "Suc p mod N < N" using N by simp
  show ?case
  proof (cases "i = 0")
    case True
    show ?thesis
      unfolding pushes_slots_snoc [OF N] lp
      using pN by (simp add: True p_def pushes_length)
  next
    case False
    then have i0: "0 < i" by simp
    have ne: "Suc p mod N \<noteq> (Suc p - i) mod N"
      using ring_index_distinct [OF i0 i] by simp
    have eq: "Suc (length ds) - i = length ds - (i - 1)" using i0 ip unfolding p_def by linarith
    have "i - 1 < N" using i0 i(1) by linarith
    moreover have "i - 1 < length ds" using i0 ip unfolding p_def by linarith
    ultimately have "i - 1 < min N (length ds)" by simp
    from snoc.IH [OF this] have old: "slots (pushes ds (data_buffer_init N)) ! ((Suc p - i) mod N) =
        Some (of_nat (Suc p - i), ds ! (Suc p - i - 1))"
      by (simp only: p_def eq)
    have lt: "Suc p - i - 1 < length ds" using i0 ip unfolding p_def by linarith
    have app: "(ds @ [d]) ! (Suc p - i - 1) = ds ! (Suc p - i - 1)"
      using lt by (simp only: nth_append if_True)
    show ?thesis
      unfolding pushes_slots_snoc [OF N] lp app p_def [symmetric]
      using ne old by simp
  qed
qed

lemma pushes_unwritten:
  assumes N: "0 < N"
  shows "length ds < N \<Longrightarrow> j < N \<Longrightarrow> j = 0 \<or> length ds < j \<Longrightarrow>
     slots (pushes ds (data_buffer_init N)) ! j = None"
proof (induction ds rule: rev_induct)
  case Nil
  then show ?case by (simp add: pushes_Nil init_fields)
next
  case (snoc d ds)
  have "Suc (length ds) mod N = Suc (length ds)" using snoc.prems(1) by simp
  then have ne: "Suc (length ds) mod N \<noteq> j" using snoc.prems(3) by auto
  have "slots (pushes ds (data_buffer_init N)) ! j = None"
    using snoc.prems by (intro snoc.IH) auto
  with ne show ?case
    unfolding pushes_slots_snoc [OF N] by simp
qed

subsection \<open>The two reads\<close>

lemma get_latest_after_pushes:
  assumes N: "0 < N"
  shows "data_buffer_get_latest (pushes ds (data_buffer_init N)) =
     (if ds = [] then None else Some (of_nat (length ds), last ds))"
proof (cases "ds = []")
  case True
  then show ?thesis
    using N by (simp add: data_buffer_get_latest_def pushes_Nil init_fields)
next
  case False
  then have "0 < min N (length ds)" using N by simp
  from pushes_written [OF N this]
  have "slots (pushes ds (data_buffer_init N)) ! (length ds mod N) =
      Some (of_nat (length ds), ds ! (length ds - 1))"
    by simp
  then show ?thesis
    using N False
    by (simp add: data_buffer_get_latest_def pushes_cursor pushes_length last_conv_nth)
qed

lemma map_filter_Some: "List.map_filter id (map (\<lambda>i. Some (f i)) xs) = map f xs"
  by (induction xs) (simp_all add: List.map_filter_simps)

lemma copy_recent_after_pushes:
  assumes N: "0 < N"
  shows "imu_manager_copy_recent_samples m (pushes ds (data_buffer_init N)) =
     map (\<lambda>k. (of_nat (Suc k), ds ! k))
       [length ds - min m (min N (length ds))..<length ds]"
proof -
  define b where "b = pushes ds (data_buffer_init N)"
  define p where "p = length ds"
  define n where "n = min m (min N p)"
  define walk where "walk = map (\<lambda>i. slots b ! ((cursor b + N - i) mod N)) [0..<min m N]"
  have len: "length (slots b) = N" by (simp add: b_def pushes_length)
  have cur: "cursor b = p mod N" using N by (simp add: b_def p_def pushes_cursor)
  have lb: "length walk = min m N" by (simp add: walk_def)
  have nle: "n \<le> min m N" "n \<le> p" by (simp_all add: n_def)
  have idx: "(cursor b + N - i) mod N = (p - i) mod N" if "i < N" "i \<le> p" for i
  proof -
    have "cursor b + N - i = p mod N + (N - i)" using that(1) by (simp add: cur)
    then have "(cursor b + N - i) mod N = (p + (N - i)) mod N"
      by (simp add: mod_add_left_eq)
    also have "p + (N - i) = (p - i) + N" using that by simp
    finally show ?thesis by simp
  qed
  have written: "walk ! i = Some (of_nat (p - i), ds ! (p - i - 1))" if "i < n" for i
  proof -
    have i: "i < min m N" "i < N" "i \<le> p" "i < min N (length ds)"
      using that by (simp_all add: n_def p_def)
    have "walk ! i = slots b ! ((p - i) mod N)"
      using i(1) idx [OF i(2,3)] by (simp add: walk_def)
    also have "\<dots> = Some (of_nat (p - i), ds ! (p - i - 1))"
      unfolding b_def p_def by (rule pushes_written [OF N i(4)])
    finally show ?thesis .
  qed
  have stop: "\<not> walk ! n \<noteq> None" if "n < length walk"
  proof -
    have n: "n < min m N" using that by (simp add: lb)
    then have np: "n = p" and pN: "p < N" by (simp_all add: n_def min_def split: if_splits)
    have "walk ! n = slots b ! ((cursor b + N - p) mod N)"
      using n by (simp add: walk_def np)
    also have "(cursor b + N - p) mod N = (p - p) mod N" using pN by (intro idx) simp_all
    also have "slots b ! ((p - p) mod N) = None"
      unfolding b_def using pN N by (simp add: pushes_unwritten p_def)
    finally show ?thesis by simp
  qed
  have "takeWhile (\<lambda>x. x \<noteq> None) walk = take n walk"
  proof (rule takeWhile_eq_take_P_nth)
    show "walk ! i \<noteq> None" if "i < n" "i < length walk" for i
      using written [OF that(1)] by simp
    show "\<not> walk ! n \<noteq> None" if "n < length walk"
      using that by (rule stop)
  qed
  also have "take n walk = map (\<lambda>i. Some (of_nat (p - i), ds ! (p - i - 1))) [0..<n]"
  proof (rule nth_equalityI)
    show "length (take n walk) = length (map (\<lambda>i. Some (of_nat (p - i), ds ! (p - i - 1))) [0..<n])"
      using nle(1) by (simp add: lb)
    show "take n walk ! i = map (\<lambda>i. Some (of_nat (p - i), ds ! (p - i - 1))) [0..<n] ! i"
      if "i < length (take n walk)" for i
    proof -
      have "i < n" using that by simp
      then show ?thesis using written [of i] by simp
    qed
  qed
  finally have tw: "List.map_filter id (takeWhile (\<lambda>x. x \<noteq> None) walk) =
      map (\<lambda>i. (of_nat (p - i), ds ! (p - i - 1))) [0..<n]"
    by (simp only: map_filter_Some)
  have "rev (map (\<lambda>i. (of_nat (p - i) :: 32 word, ds ! (p - i - 1))) [0..<n]) =
      map (\<lambda>k. (of_nat (Suc k), ds ! k)) [p - n..<p]"
  proof (rule nth_equalityI)
    show "length (rev (map (\<lambda>i. (of_nat (p - i) :: 32 word, ds ! (p - i - 1))) [0..<n])) =
        length (map (\<lambda>k. (of_nat (Suc k) :: 32 word, ds ! k)) [p - n..<p])"
      using nle(2) by simp
    show "rev (map (\<lambda>i. (of_nat (p - i) :: 32 word, ds ! (p - i - 1))) [0..<n]) ! j =
        map (\<lambda>k. (of_nat (Suc k), ds ! k)) [p - n..<p] ! j"
      if "j < length (rev (map (\<lambda>i. (of_nat (p - i) :: 32 word, ds ! (p - i - 1))) [0..<n]))" for j
    proof -
      have j: "j < n" using that by simp
      have a: "p - (n - Suc j) = Suc (p - n + j)" using j nle(2) by linarith
      have c: "p - n + j < p" using j nle(2) by linarith
      have u: "[p - n..<p] ! j = p - n + j" using c by (rule nth_upt)
      have l: "rev (map (\<lambda>i. (of_nat (p - i) :: 32 word, ds ! (p - i - 1))) [0..<n]) ! j =
          (of_nat (p - (n - Suc j)), ds ! (p - (n - Suc j) - 1))"
        using j by (simp add: rev_nth)
      have r: "map (\<lambda>k. (of_nat (Suc k) :: 32 word, ds ! k)) [p - n..<p] ! j =
          (of_nat (Suc (p - n + j)), ds ! (p - n + j))"
        using j nle(2) by (simp only: nth_map length_upt u) simp
      show ?thesis unfolding l r a by simp
    qed
  qed
  with tw show ?thesis
    unfolding imu_manager_copy_recent_samples_def Let_def len
      walk_def [symmetric] b_def [symmetric] n_def [symmetric] p_def [symmetric]
    by (simp add: len walk_def)
qed

lemma map_nth_upt_drop:
  assumes "k \<le> length xs"
  shows "map (\<lambda>i. xs ! i) [k..<length xs] = drop k xs"
proof -
  have "drop k xs = drop k (map (\<lambda>i. xs ! i) [0..<length xs])" by (simp only: map_nth)
  also have "\<dots> = map (\<lambda>i. xs ! i) (drop k [0..<length xs])" by (simp only: drop_map)
  also have "drop k [0..<length xs] = [k..<length xs]" by (simp add: drop_upt)
  finally show ?thesis by simp
qed

text \<open>
  C4: in a store of capacity \<open>N \<ge> 1\<close> the latest-sample read is empty if and only if
  nothing has been pushed; after the first push it returns that sample, and after any
  further push it returns the sample just pushed, with the sequence number of that push,
  never an older one. Accordingly \<^verbatim>\<open>data_processor_task\<close> counts a sample in an
  iteration exactly when something has been pushed.
\<close>

theorem get_latest_returns_most_recent:
  assumes "0 < N"
  shows "(data_buffer_get_latest (pushes ds (data_buffer_init N)) = None \<longleftrightarrow> ds = [])
     \<and> data_buffer_get_latest (pushes [d] (data_buffer_init N)) = Some (1, d)
     \<and> data_buffer_get_latest (pushes (ds @ [d]) (data_buffer_init N)) =
         Some (of_nat (Suc (length ds)), d)
     \<and> snd (data_processor_cycle pd (pushes ds (data_buffer_init N)) c) =
         (if ds = [] then c else c + 1)"
proof -
  have latest: "data_buffer_get_latest (pushes xs (data_buffer_init N)) =
      (if xs = [] then None else Some (of_nat (length xs), last xs))" for xs
    using assms by (rule get_latest_after_pushes)
  have empty: "data_buffer_get_latest (pushes ds (data_buffer_init N)) = None \<longleftrightarrow> ds = []"
    by (simp add: latest)
  have first: "data_buffer_get_latest (pushes [d] (data_buffer_init N)) = Some (1, d)"
    by (simp add: latest)
  have later: "data_buffer_get_latest (pushes (ds @ [d]) (data_buffer_init N)) =
      Some (of_nat (Suc (length ds)), d)"
    by (simp add: latest)
  have consumer: "snd (data_processor_cycle pd (pushes ds (data_buffer_init N)) c) =
      (if ds = [] then c else c + 1)"
    by (simp add: data_processor_cycle_def latest Let_def)
  from empty first later consumer show ?thesis by (intro conjI)
qed

theorem get_latest_returns_most_recent_witness:
  "0 < (2::nat)
   \<and> data_buffer_get_latest (pushes [] (data_buffer_init 2)) = None
   \<and> data_buffer_get_latest
         (pushes ([example_sample 10 1, example_sample 20 1] @ [example_sample 30 1])
            (data_buffer_init 2)) = Some (3, example_sample 30 1)"
proof -
  have h: "0 < (2::nat)" by simp
  from get_latest_returns_most_recent [OF h, where ds = "[]"]
    get_latest_returns_most_recent [OF h,
      where ds = "[example_sample 10 1, example_sample 20 1]" and d = "example_sample 30 1"]
  show ?thesis by simp
qed

text \<open>
  C5: in a store of capacity \<open>N \<ge> 1\<close>, after a push history \<open>ds\<close> of length
  \<open>p\<close>, the bulk read with bound \<open>m\<close> returns exactly \<open>min m (min N p)\<close> samples;
  they are the last that many samples pushed, in push order; their sequence numbers are
  those of their pushes, each the successor of the one before in 32-bit arithmetic. In
  particular, once \<open>N\<close> or more samples have been pushed, the read with bound \<open>N\<close>
  returns exactly the last \<open>N\<close> pushed samples in push order.
\<close>

theorem copy_recent_most_recent_in_order:
  assumes "0 < N"
  shows
    "let p = length ds;
         n = min m (min N p);
         r = imu_manager_copy_recent_samples m (pushes ds (data_buffer_init N))
     in length r = n
        \<and> map snd r = drop (p - n) ds
        \<and> map fst r = map (\<lambda>k. of_nat (Suc k)) [p - n..<p]
        \<and> (\<forall>i. Suc i < n \<longrightarrow> sequence_gap (fst (r ! i)) (fst (r ! Suc i)) = 1)
        \<and> (N \<le> p \<longrightarrow>
             map snd (imu_manager_copy_recent_samples N (pushes ds (data_buffer_init N))) =
               drop (p - N) ds)"
proof -
  define p where "p = length ds"
  define n where "n = min m (min N p)"
  define r where "r = imu_manager_copy_recent_samples m (pushes ds (data_buffer_init N))"
  have r: "r = map (\<lambda>k. (of_nat (Suc k), ds ! k)) [p - n..<p]"
    unfolding r_def n_def p_def by (rule copy_recent_after_pushes [OF assms])
  have n: "n \<le> p" by (simp add: n_def)
  have 1: "length r = n" using n by (simp add: r)
  have 2: "map snd r = drop (p - n) ds"
    using map_nth_upt_drop [of "p - n" ds] by (simp add: r p_def comp_def)
  have 3: "map fst r = map (\<lambda>k. of_nat (Suc k)) [p - n..<p]"
    by (simp add: r comp_def)
  have 4: "sequence_gap (fst (r ! i)) (fst (r ! Suc i)) = 1" if "Suc i < n" for i
  proof -
    have a: "p - n + i < p" "p - n + Suc i < p" using that n by linarith+
    have "fst (r ! i) = of_nat (Suc (p - n + i))"
      using that n a(1) by (simp add: r)
    moreover have "fst (r ! Suc i) = of_nat (Suc (p - n + Suc i))"
      using that n a(2) by (simp add: r)
    ultimately show ?thesis by (simp add: sequence_gap_def)
  qed
  have 5: "map snd (imu_manager_copy_recent_samples N (pushes ds (data_buffer_init N))) =
      drop (p - N) ds" if "N \<le> p"
  proof -
    have m: "min N (min N (length ds)) = N" using that by (simp add: p_def)
    show ?thesis
      unfolding copy_recent_after_pushes [OF assms] m
      using map_nth_upt_drop [of "p - N" ds] by (simp add: p_def comp_def)
  qed
  show ?thesis
    unfolding Let_def p_def [symmetric] n_def [symmetric] r_def [symmetric]
    using 1 2 3 4 5 by blast
qed

theorem copy_recent_most_recent_in_order_witness:
  "0 < (2::nat)
   \<and> imu_manager_copy_recent_samples 5
       (pushes [example_sample 10 1, example_sample 20 1, example_sample 30 1]
          (data_buffer_init 2)) = [(2, example_sample 20 1), (3, example_sample 30 1)]"
proof -
  have h: "0 < (2::nat)" by simp
  define r where "r = imu_manager_copy_recent_samples 5
       (pushes [example_sample 10 1, example_sample 20 1, example_sample 30 1]
          (data_buffer_init 2))"
  from copy_recent_most_recent_in_order [OF h,
      where ds = "[example_sample 10 1, example_sample 20 1, example_sample 30 1]" and m = 5]
  have "length r = 2" "map snd r = [example_sample 20 1, example_sample 30 1]"
    "map fst r = [2, 3]"
    by (simp_all add: Let_def r_def upt_rec)
  then have "r = [(2, example_sample 20 1), (3, example_sample 30 1)]"
    by (cases r; cases "tl r") (auto simp: prod_eq_iff)
  then show ?thesis using h by (simp add: r_def)
qed

end
